theory Spec2Isabelle
  imports Main "HOL-Library.AList"
begin

section \<open>Shared vocabulary\<close>

text \<open>
  A Python \<^verbatim>\<open>dict\<close> is an association list with distinct keys, in insertion order:
  \<^verbatim>\<open>d[k]\<close> is \<^term>\<open>map_of d k\<close>, \<^verbatim>\<open>d[k] = v\<close> is \<^term>\<open>AList.update k v d\<close>
  (an existing key keeps its place, a new key goes last), \<^verbatim>\<open>for k in d\<close> walks
  \<^term>\<open>map fst d\<close>.  Item identifiers and tag names are strings.

  \<^verbatim>\<open>call_hook(name, args)\<close> of the hook bus is recorded as one entry of a trace, the
  event name with its argument list, in the order of the calls.
\<close>

datatype hook_arg =
    Names "string list"
  | Name string
  | Changes "(string \<times> (string \<times> string) list) list"
  | Filename string

type_synonym hook_call = "string \<times> hook_arg list"

definition call_hook :: "string \<Rightarrow> hook_arg list \<Rightarrow> hook_call list \<Rightarrow> hook_call list" where
  "call_hook name args trace = trace @ [(name, args)]"

section \<open>tag.py: the tag registry\<close>

text \<open>A per-tag transform is a callable; the registry only stores it, so its name stands for it.\<close>

datatype transform = Transform string

record CantoTags =
  tags :: "(string \<times> string list) list"
  changed_tags :: "string list"
  tag_transforms :: "(string \<times> transform) list"
  extra_tags :: "(string \<times> string list) list"
  hook_calls :: "hook_call list"

text \<open>\<^verbatim>\<open>CantoTags.__init__\<close>: everything empty.\<close>

definition CantoTags_init :: CantoTags where
  "CantoTags_init =
     \<lparr>tags = [], changed_tags = [], tag_transforms = [], extra_tags = [], hook_calls = []\<rparr>"

definition items_to_tags :: "CantoTags \<Rightarrow> string list \<Rightarrow> string list" where
  "items_to_tags s ids =
     fold (\<lambda>iid acc.
        fold (\<lambda>tag acc'.
           (case map_of (tags s) tag of
              Some l \<Rightarrow> if iid \<in> set l \<and> tag \<notin> set acc' then acc' @ [tag] else acc'
            | None \<Rightarrow> acc'))
          (map fst (tags s)) acc)
       ids []"

definition tag_changed :: "string \<Rightarrow> CantoTags \<Rightarrow> CantoTags" where
  "tag_changed tag s =
     (if tag \<notin> set (changed_tags s) then s\<lparr>changed_tags := changed_tags s @ [tag]\<rparr> else s)"

definition get_tag :: "CantoTags \<Rightarrow> string \<Rightarrow> string list" where
  "get_tag s tag = (case map_of (tags s) tag of Some l \<Rightarrow> l | None \<Rightarrow> [])"

definition get_tags :: "CantoTags \<Rightarrow> string list" where
  "get_tags s = map fst (tags s)"

definition tag_transform :: "string \<Rightarrow> transform \<Rightarrow> CantoTags \<Rightarrow> CantoTags" where
  "tag_transform tag t s = s\<lparr>tag_transforms := AList.update tag t (tag_transforms s)\<rparr>"

definition set_extra_tags :: "string \<Rightarrow> string list \<Rightarrow> CantoTags \<Rightarrow> CantoTags" where
  "set_extra_tags tag extras s = s\<lparr>extra_tags := AList.update tag extras (extra_tags s)\<rparr>"

text \<open>
  \<^verbatim>\<open>reset\<close>: the two side tables are cleared, every existing tag is marked changed, then
  the tags are dropped.
\<close>

definition reset :: "CantoTags \<Rightarrow> CantoTags" where
  "reset s =
     (fold tag_changed (map fst (tags s)) (s\<lparr>tag_transforms := [], extra_tags := []\<rparr>))
       \<lparr>tags := []\<rparr>"

text \<open>
  The body of the loop of \<^verbatim>\<open>add_tag\<close>, for one name of \<^verbatim>\<open>alladded\<close>: create the tag
  (and publish \<^verbatim>\<open>daemon_new_tag\<close> with the one-element list of names) when it is
  missing, then append the id when the tag does not hold it yet.  After the first
  step the key exists, so the lookup of the second step cannot raise; the
  \<open>None\<close> branch is there only because \<^term>\<open>map_of\<close> is partial.
\<close>

definition add_tag_step :: "string \<Rightarrow> string \<Rightarrow> CantoTags \<Rightarrow> CantoTags" where
  "add_tag_step iid name s =
     (let s1 = (if name \<notin> set (map fst (tags s))
                then s\<lparr>tags := AList.update name [] (tags s),
                       hook_calls := call_hook ''daemon_new_tag'' [Names [name]] (hook_calls s)\<rparr>
                else s)
      in case map_of (tags s1) name of
           None \<Rightarrow> s1
         | Some l \<Rightarrow>
             if iid \<notin> set l
             then tag_changed name (s1\<lparr>tags := AList.update name (l @ [iid]) (tags s1)\<rparr>)
             else s1)"

definition add_tag :: "string \<Rightarrow> string \<Rightarrow> CantoTags \<Rightarrow> CantoTags" where
  "add_tag iid name s =
     (let extras = (case map_of (extra_tags s) name of Some e \<Rightarrow> e | None \<Rightarrow> []);
          alladded = name # extras
      in fold (add_tag_step iid) alladded s)"

text \<open>\<^verbatim>\<open>list.remove(x)\<close> deletes the first occurrence: \<^term>\<open>remove1\<close>.\<close>

definition remove_tag :: "string \<Rightarrow> string \<Rightarrow> CantoTags \<Rightarrow> CantoTags" where
  "remove_tag iid name s =
     (case map_of (tags s) name of
        None \<Rightarrow> s
      | Some l \<Rightarrow>
          if iid \<in> set l
          then tag_changed name (s\<lparr>tags := AList.update name (remove1 iid l) (tags s)\<rparr>)
          else s)"

text \<open>
  \<^verbatim>\<open>remove_id\<close> walks the keys of \<^verbatim>\<open>self.tags\<close>; the loop only rewrites values, so the
  keys it walks are those at entry.
\<close>

definition remove_id :: "string \<Rightarrow> CantoTags \<Rightarrow> CantoTags" where
  "remove_id iid s =
     fold (\<lambda>tag s'.
        (case map_of (tags s') tag of
           None \<Rightarrow> s'
         | Some l \<Rightarrow>
             if iid \<in> set l
             then tag_changed tag (s'\<lparr>tags := AList.update tag (remove1 iid l) (tags s')\<rparr>)
             else s'))
       (map fst (tags s)) s"

text \<open>
  \<^verbatim>\<open>do_tag_changes\<close>: one \<^verbatim>\<open>daemon_tag_change\<close> call per entry of \<^verbatim>\<open>changed_tags\<close>, then
  the list is replaced by an empty one.  The write lock it takes and releases
  around the loop belongs to \<^verbatim>\<open>locks.py\<close>; in this sequential model taking it is a
  no-op.
\<close>

definition do_tag_changes :: "CantoTags \<Rightarrow> CantoTags" where
  "do_tag_changes s =
     (fold (\<lambda>tag s'. s'\<lparr>hook_calls := call_hook ''daemon_tag_change'' [Name tag] (hook_calls s')\<rparr>)
        (changed_tags s) s)
       \<lparr>changed_tags := []\<rparr>"

section \<open>Histories of registry operations\<close>

text \<open>
  The mutating entry points of the registry as a datatype, so that a claim about
  every sequence of calls is a statement about every list of operations.
\<close>

datatype tag_op =
    Add_tag string string
  | Remove_tag string string
  | Remove_id string
  | Reset
  | Set_extra_tags string "string list"

fun apply_op :: "tag_op \<Rightarrow> CantoTags \<Rightarrow> CantoTags" where
  "apply_op (Add_tag iid name) s = add_tag iid name s"
| "apply_op (Remove_tag iid name) s = remove_tag iid name s"
| "apply_op (Remove_id iid) s = remove_id iid s"
| "apply_op Reset s = reset s"
| "apply_op (Set_extra_tags tag extras) s = set_extra_tags tag extras s"

definition run_ops :: "tag_op list \<Rightarrow> CantoTags \<Rightarrow> CantoTags" where
  "run_ops ops s = fold apply_op ops s"

text \<open>
  An id enters a tag at step \<open>k\<close> of a history when the tag does not hold it before
  the \<open>k\<close>-th operation and holds it after.  \<open>first_inserted\<close> is the earliest such
  step, \<open>last_inserted\<close> the latest.
\<close>

definition entered_at :: "CantoTags \<Rightarrow> tag_op list \<Rightarrow> string \<Rightarrow> string \<Rightarrow> nat \<Rightarrow> bool" where
  "entered_at s0 ops tag iid k \<longleftrightarrow>
     k < length ops \<and>
     iid \<notin> set (get_tag (run_ops (take k ops) s0) tag) \<and>
     iid \<in> set (get_tag (run_ops (take (Suc k) ops) s0) tag)"

definition first_inserted :: "CantoTags \<Rightarrow> tag_op list \<Rightarrow> string \<Rightarrow> string \<Rightarrow> nat option" where
  "first_inserted s0 ops tag iid = find (entered_at s0 ops tag iid) [0..<length ops]"

definition last_inserted :: "CantoTags \<Rightarrow> tag_op list \<Rightarrow> string \<Rightarrow> string \<Rightarrow> nat option" where
  "last_inserted s0 ops tag iid = find (entered_at s0 ops tag iid) (rev [0..<length ops])"

fun earlier :: "nat option \<Rightarrow> nat option \<Rightarrow> bool" where
  "earlier (Some a) (Some b) = (a < b)"
| "earlier _ _ = False"

definition in_first_insertion_order :: "CantoTags \<Rightarrow> tag_op list \<Rightarrow> string \<Rightarrow> bool" where
  "in_first_insertion_order s0 ops tag =
     sorted_wrt (\<lambda>a b. earlier (first_inserted s0 ops tag a) (first_inserted s0 ops tag b))
       (get_tag (run_ops ops s0) tag)"

definition in_last_insertion_order :: "CantoTags \<Rightarrow> tag_op list \<Rightarrow> string \<Rightarrow> bool" where
  "in_last_insertion_order s0 ops tag =
     sorted_wrt (\<lambda>a b. earlier (last_inserted s0 ops tag a) (last_inserted s0 ops tag b))
       (get_tag (run_ops ops s0) tag)"

text \<open>
  An operation marks a tag dirty when it calls \<^verbatim>\<open>tag_changed\<close> on it: run on the
  registry with the dirty list cleared, the tag is in the dirty list afterwards.
  \<open>dirty_marks\<close> counts the operations of a history that do so, and \<open>flushed\<close> is
  what one \<^verbatim>\<open>do_tag_changes\<close> adds to the trace of hook calls.
\<close>

definition marks_dirty :: "tag_op \<Rightarrow> CantoTags \<Rightarrow> string \<Rightarrow> bool" where
  "marks_dirty op s tag \<longleftrightarrow> tag \<in> set (changed_tags (apply_op op (s\<lparr>changed_tags := []\<rparr>)))"

fun dirty_marks :: "tag_op list \<Rightarrow> CantoTags \<Rightarrow> string \<Rightarrow> nat" where
  "dirty_marks [] s tag = 0"
| "dirty_marks (op # ops) s tag =
     (if marks_dirty op s tag then 1 else 0) + dirty_marks ops (apply_op op s) tag"

definition flushed :: "CantoTags \<Rightarrow> hook_call list" where
  "flushed s = drop (length (hook_calls s)) (hook_calls (do_tag_changes s))"

definition dirty_grows :: "CantoTags \<Rightarrow> CantoTags \<Rightarrow> bool" where
  "dirty_grows s s' \<longleftrightarrow>
     set (changed_tags s) \<subseteq> set (changed_tags s') \<and>
     (distinct (changed_tags s) \<longrightarrow> distinct (changed_tags s'))"

definition dirty_le :: "CantoTags \<Rightarrow> CantoTags \<Rightarrow> bool" where
  "dirty_le s s' \<longleftrightarrow>
     tags s = tags s' \<and> extra_tags s = extra_tags s' \<and>
     set (changed_tags s) \<subseteq> set (changed_tags s')"

text \<open>Invariants used in the proofs below.\<close>

definition timeline_ok :: "CantoTags \<Rightarrow> tag_op list \<Rightarrow> string \<Rightarrow> bool" where
  "timeline_ok s0 ops t \<longleftrightarrow>
     distinct (get_tag (run_ops ops s0) t) \<and>
     (\<forall>a \<in> set (get_tag (run_ops ops s0) t). \<exists>m. last_inserted s0 ops t a = Some m) \<and>
     in_last_insertion_order s0 ops t"

section \<open>Collaborators of the backend that are not among the sources\<close>

subsection \<open>hooks.py: the hook bus\<close>

text \<open>
  Modelled from the spec: \<^verbatim>\<open>hooks.py\<close> is not among the sources.  The spec describes a
  process-wide registry of named events: \<^verbatim>\<open>on_hook(name, callback)\<close> subscribes a
  callback under a name, and \<^verbatim>\<open>call_hook(name, args)\<close> invokes the callbacks
  subscribed under that name, in subscription order.  A callback is named by the
  bound method that the sources pass to \<^verbatim>\<open>on_hook\<close>.
\<close>

datatype handler =
    On_new_tag | On_del_tag | On_config_change | On_tag_change | On_kill_socket
  | Do_tag_changes | Shelf_sync | Shelf_close

type_synonym hooks = "(string \<times> handler) list"

text \<open>Modelled from the spec: \<^verbatim>\<open>on_hook\<close> appends the callback to the subscriptions.\<close>

definition on_hook :: "string \<Rightarrow> handler \<Rightarrow> hooks \<Rightarrow> hooks" where
  "on_hook name h hs = hs @ [(name, h)]"

text \<open>
  Modelled from the spec: the callbacks \<^verbatim>\<open>call_hook\<close> invokes for an event name,
  those subscribed under exactly that name, in subscription order.
\<close>

definition hook_handlers :: "hooks \<Rightarrow> string \<Rightarrow> handler list" where
  "hook_handlers hs name = map snd (filter (\<lambda>(n, h). n = name) hs)"

subsection \<open>protect.py: the protection registry\<close>

text \<open>
  Modelled from the spec: \<^verbatim>\<open>protect.py\<close> is not among the sources.  A key is a pair of
  an owner (the socket) and a reason; an entry maps a key to a set of item ids.
  \<^verbatim>\<open>protect(key, ids)\<close> adds the ids under the key, creating the entry if absent;
  \<^verbatim>\<open>unprotect(key)\<close> removes the whole entry; \<^verbatim>\<open>unprotect_one(key, id)\<close> removes one id
  and keeps the entry; \<^verbatim>\<open>protected(id)\<close> holds iff some entry contains the id.
\<close>

type_synonym socket = nat
type_synonym prot_key = "socket \<times> string"
type_synonym protection = "(prot_key \<times> string set) list"

text \<open>Modelled from the spec: the set of ids an entry holds, empty when the key has no entry.\<close>

definition entry :: "protection \<Rightarrow> prot_key \<Rightarrow> string set" where
  "entry p key = (case map_of p key of None \<Rightarrow> {} | Some ids \<Rightarrow> ids)"

text \<open>Modelled from the spec: \<^verbatim>\<open>protect(key, ids)\<close> adds the ids under the key.\<close>

definition protect :: "prot_key \<Rightarrow> string list \<Rightarrow> protection \<Rightarrow> protection" where
  "protect key ids p = AList.update key (entry p key \<union> set ids) p"

text \<open>Modelled from the spec: \<^verbatim>\<open>unprotect(key)\<close> removes the entire entry.\<close>

definition unprotect :: "prot_key \<Rightarrow> protection \<Rightarrow> protection" where
  "unprotect key p = AList.delete key p"

text \<open>Modelled from the spec: \<^verbatim>\<open>unprotect_one(key, id)\<close> removes a single id; the entry stays.\<close>

definition unprotect_one :: "prot_key \<Rightarrow> string \<Rightarrow> protection \<Rightarrow> protection" where
  "unprotect_one key iid p =
     (case map_of p key of None \<Rightarrow> p | Some ids \<Rightarrow> AList.update key (ids - {iid}) p)"

text \<open>Modelled from the spec: \<^verbatim>\<open>protected(id)\<close> is true iff any entry anywhere contains the id.\<close>

definition protected :: "protection \<Rightarrow> string \<Rightarrow> bool" where
  "protected p iid = list_ex (\<lambda>(key, ids). iid \<in> ids) p"

subsection \<open>feed.py: the dead feeds\<close>

text \<open>
  Modelled from the spec: \<^verbatim>\<open>feed.py\<close> is not among the sources.  \<^verbatim>\<open>allfeeds.dead_feeds\<close>
  is a dict from URL to feed; a feed has a URL and a list of items, of which only
  the \<^verbatim>\<open>"id"\<close> of each item is read here.  \<^verbatim>\<open>really_dead(feed)\<close> discards the feed for
  good: its entry leaves the dict.
\<close>

record feed =
  URL :: string
  items :: "string list"

type_synonym dead_feeds = "(string \<times> feed) list"

text \<open>Modelled from the spec: \<^verbatim>\<open>really_dead(feed)\<close> removes the feed, found by its URL, from the dead feeds.\<close>

definition really_dead :: "feed \<Rightarrow> dead_feeds \<Rightarrow> dead_feeds" where
  "really_dead f dead = AList.delete (URL f) dead"

subsection \<open>config.py: the configuration\<close>

text \<open>
  Modelled from the spec: \<^verbatim>\<open>config.py\<close> is not among the sources.  The configuration is
  a map from section names to maps from settings to values.  \<^verbatim>\<open>has_section\<close> tests for
  a section, \<^verbatim>\<open>remove_section\<close> deletes one, \<^verbatim>\<open>set(section, setting, value)\<close> stores one
  value (creating the section when it is missing), \<^verbatim>\<open>write()\<close> persists the sections to
  disk and \<^verbatim>\<open>parse()\<close> reloads them from there.
\<close>

type_synonym settings = "(string \<times> string) list"
type_synonym sections = "(string \<times> settings) list"

record CantoConfig =
  in_memory :: sections
  on_disk :: sections

text \<open>Modelled from the spec: \<^verbatim>\<open>has_section(section)\<close>.\<close>

definition has_section :: "CantoConfig \<Rightarrow> string \<Rightarrow> bool" where
  "has_section c sec \<longleftrightarrow> sec \<in> set (map fst (in_memory c))"

text \<open>Modelled from the spec: \<^verbatim>\<open>remove_section(section)\<close>.\<close>

definition remove_section :: "string \<Rightarrow> CantoConfig \<Rightarrow> CantoConfig" where
  "remove_section sec c = c\<lparr>in_memory := AList.delete sec (in_memory c)\<rparr>"

text \<open>Modelled from the spec: \<^verbatim>\<open>set(section, setting, value)\<close>.\<close>

definition conf_set :: "string \<Rightarrow> string \<Rightarrow> string \<Rightarrow> CantoConfig \<Rightarrow> CantoConfig" where
  "conf_set sec setting v c =
     c\<lparr>in_memory :=
         AList.update sec
           (AList.update setting v (case map_of (in_memory c) sec of None \<Rightarrow> [] | Some st \<Rightarrow> st))
           (in_memory c)\<rparr>"

text \<open>Modelled from the spec: \<^verbatim>\<open>write()\<close>, persist to disk.\<close>

definition conf_write :: "CantoConfig \<Rightarrow> CantoConfig" where
  "conf_write c = c\<lparr>on_disk := in_memory c\<rparr>"

text \<open>
  The reading side of the configuration, as \<^verbatim>\<open>cmd_configs\<close> uses it, is taken as a
  parameter: \<^verbatim>\<open>conf.get("", section, setting, None, 0)\<close> returns a value or raises (the
  caller wraps it in \<^verbatim>\<open>try\<close>), \<^verbatim>\<open>conf.get_section(name)\<close> returns the settings of a section
  and \<^verbatim>\<open>conf.get_sections()\<close> all sections.  The spec gives \<^verbatim>\<open>get_section\<close> no failure (a
  section that is absent reads as empty), so it is a total function here.
\<close>

datatype exn = Exn string

record conf_reader =
  conf_get :: "string \<Rightarrow> string \<Rightarrow> exn + string"
  conf_get_section :: "string \<Rightarrow> settings"
  conf_get_sections :: sections

subsection \<open>server.py: writing to a socket\<close>

text \<open>
  Modelled from the spec: \<^verbatim>\<open>server.py\<close> is not among the sources.  \<^verbatim>\<open>self.write(socket, name, payload)\<close>
  of the server sends a reply to a socket; it is recorded as one entry of the trace of
  written replies.  The payloads are those of the replies modelled here; log lines carry
  the level of the \<^verbatim>\<open>logging\<close> call that made them.
\<close>

datatype payload =
    Tag_names "string list"
  | Tag_name string
  | Item_lists "(string \<times> string list) list"
  | Config_map "(string \<times> (string \<times> string) list) list"

datatype level = Debug | Info | Warn | Error

type_synonym log_entry = "level \<times> string"

section \<open>canto\_backend.py: the dispatcher\<close>

text \<open>
  The state the handlers below read and write: the four watch structures of
  \<^verbatim>\<open>self.watches\<close>, the module-level singletons \<^verbatim>\<open>protection\<close>, \<^verbatim>\<open>allfeeds.dead_feeds\<close>
  and \<^verbatim>\<open>alltags\<close>, the configuration and its global transform, and three traces:
  what \<^verbatim>\<open>self.write\<close> sent (socket, reply name, payload), what was logged, and the
  hook calls the backend made.
\<close>

record daemon =
  watches_new_tags :: "socket list"
  watches_del_tags :: "socket list"
  watches_config :: "socket list"
  watches_tags :: "(string \<times> socket list) list"
  protection :: protection
  dead :: dead_feeds
  alltags :: CantoTags
  global_transform :: "(string list \<Rightarrow> string list) option"
  conf :: CantoConfig
  written :: "(socket \<times> string \<times> payload) list"
  logged :: "log_entry list"
  published :: "hook_call list"

text \<open>Modelled from the spec: \<^verbatim>\<open>self.write\<close> (the name \<open>write\<close> is an Isar keyword).\<close>

definition write_reply :: "socket \<Rightarrow> string \<Rightarrow> payload \<Rightarrow> daemon \<Rightarrow> daemon" where
  "write_reply sock cmd p d = d\<lparr>written := written d @ [(sock, cmd, p)]\<rparr>"

definition log_debug :: "string \<Rightarrow> daemon \<Rightarrow> daemon" where
  "log_debug msg d = d\<lparr>logged := logged d @ [(Debug, msg)]\<rparr>"

text \<open>
  \<^verbatim>\<open>check_dead_feeds\<close> walks the keys the dict has at entry (\<^verbatim>\<open>keys()\<close> is a list in
  Python 2).  The inner \<^verbatim>\<open>for ... else\<close> breaks at the first protected item; the \<^verbatim>\<open>else\<close>
  branch runs when no item was protected.  The lookup of a key can only miss when
  an earlier \<^verbatim>\<open>really_dead\<close> removed it, which needs two keys holding feeds of one
  URL; that branch leaves the state as it is.
\<close>

definition dead_feed_step :: "string \<Rightarrow> daemon \<Rightarrow> daemon" where
  "dead_feed_step u d =
     (case map_of (dead d) u of
        None \<Rightarrow> d
      | Some f \<Rightarrow>
          (case find (protected (protection d)) (items f) of
             Some i \<Rightarrow> log_debug (''Dead feed '' @ URL f @ '' still committed.'') d
           | None \<Rightarrow> d\<lparr>dead := really_dead f (dead d)\<rparr>))"

definition check_dead_feeds :: "daemon \<Rightarrow> daemon" where
  "check_dead_feeds d = fold dead_feed_step (map fst (dead d)) d"

text \<open>The three push handlers: one reply per socket of the list, in list order.\<close>

definition on_new_tag :: "string list \<Rightarrow> daemon \<Rightarrow> daemon" where
  "on_new_tag tgs d = fold (\<lambda>sock. write_reply sock ''NEWTAGS'' (Tag_names tgs)) (watches_new_tags d) d"

definition on_tag_change :: "string \<Rightarrow> daemon \<Rightarrow> daemon" where
  "on_tag_change tag d =
     (case map_of (watches_tags d) tag of
        None \<Rightarrow> d
      | Some socks \<Rightarrow> fold (\<lambda>sock. write_reply sock ''TAGCHANGE'' (Tag_name tag)) socks d)"

definition on_del_tag :: "string list \<Rightarrow> daemon \<Rightarrow> daemon" where
  "on_del_tag tgs d = fold (\<lambda>sock. write_reply sock ''DELTAGS'' (Tag_names tgs)) (watches_del_tags d) d"

text \<open>
  \<^verbatim>\<open>while socket in l: l.remove(socket)\<close>: each round deletes the first occurrence,
  so the list gets shorter and the loop ends.
\<close>

function remove_socket :: "socket \<Rightarrow> socket list \<Rightarrow> socket list" where
  "remove_socket sock l = (if sock \<in> set l then remove_socket sock (remove1 sock l) else l)"
  by pat_completeness auto
termination
  by (relation "measure (\<lambda>(sock, l). length l)") (auto simp: length_remove1 dest: length_pos_if_in_set)

declare remove_socket.simps [simp del]

text \<open>
  \<^verbatim>\<open>on_kill_socket\<close>: the three lists, then the list of every tag of \<^verbatim>\<open>self.watches["tags"]\<close>
  (the body of that loop is \<open>drop_watch_step\<close>), then the socket's \<^verbatim>\<open>"auto"\<close> protection, then the
  dead-feed check.
\<close>

definition drop_watch_step :: "socket \<Rightarrow> string \<Rightarrow> daemon \<Rightarrow> daemon" where
  "drop_watch_step sock tag d =
     (case map_of (watches_tags d) tag of
        None \<Rightarrow> d
      | Some l \<Rightarrow> d\<lparr>watches_tags := AList.update tag (remove_socket sock l) (watches_tags d)\<rparr>)"

definition drop_watches :: "socket \<Rightarrow> daemon \<Rightarrow> daemon" where
  "drop_watches sock d =
     fold (drop_watch_step sock) (map fst (watches_tags d))
       (d\<lparr>watches_config := remove_socket sock (watches_config d),
          watches_new_tags := remove_socket sock (watches_new_tags d),
          watches_del_tags := remove_socket sock (watches_del_tags d)\<rparr>)"

definition on_kill_socket :: "socket \<Rightarrow> daemon \<Rightarrow> daemon" where
  "on_kill_socket sock d =
     check_dead_feeds
       ((drop_watches sock d)
          \<lparr>protection := unprotect (sock, ''auto'') (protection (drop_watches sock d))\<rparr>)"

definition setup_hooks :: "hooks \<Rightarrow> hooks" where
  "setup_hooks hs =
     on_hook ''kill_socket'' On_kill_socket
       (on_hook ''tag_change'' On_tag_change
         (on_hook ''config_change'' On_config_change
           (on_hook ''del_tag'' On_del_tag
             (on_hook ''new_tag'' On_new_tag hs))))"

text \<open>
  \<^verbatim>\<open>cmd_items\<close>.  The loop stores the transformed list of each tag in the response and
  passes \<^verbatim>\<open>response[tag]\<close>, read back from the dict, to \<^verbatim>\<open>protection.protect\<close> under the
  key of the socket and \<^verbatim>\<open>"auto"\<close>; the reply is written after the loop.
\<close>

definition apply_transforms :: "daemon \<Rightarrow> string list \<Rightarrow> string list" where
  "apply_transforms d tag = (case global_transform d of Some t \<Rightarrow> t tag | None \<Rightarrow> tag)"

definition cmd_items_step ::
  "socket \<Rightarrow> string \<Rightarrow> (string \<times> string list) list \<times> daemon \<Rightarrow>
   (string \<times> string list) list \<times> daemon" where
  "cmd_items_step sock tag rd =
     (case rd of (response, d) \<Rightarrow>
        (let response' = AList.update tag (apply_transforms d (get_tag (alltags d) tag)) response;
             ids = (case map_of response' tag of Some l \<Rightarrow> l | None \<Rightarrow> [])
         in (response', d\<lparr>protection := protect (sock, ''auto'') ids (protection d)\<rparr>)))"

definition cmd_items_loop ::
  "socket \<Rightarrow> string list \<Rightarrow> (string \<times> string list) list \<times> daemon \<Rightarrow>
   (string \<times> string list) list \<times> daemon" where
  "cmd_items_loop sock args rd = fold (cmd_items_step sock) args rd"

definition cmd_items :: "socket \<Rightarrow> string list \<Rightarrow> daemon \<Rightarrow> daemon" where
  "cmd_items sock args d =
     (case cmd_items_loop sock args ([], d) of
        (response, d') \<Rightarrow> write_reply sock ''ITEMS'' (Item_lists response) d')"

text \<open>
  The subscriptions the sources make: \<^verbatim>\<open>CantoTags.__init__\<close> (at import of \<^verbatim>\<open>tag.py\<close>),
  \<^verbatim>\<open>CantoShelf.__init__\<close> and \<^verbatim>\<open>CantoBackend.setup_hooks\<close>, in the order \<^verbatim>\<open>init\<close> reaches them.
\<close>

definition CantoTags_hooks :: "hooks \<Rightarrow> hooks" where
  "CantoTags_hooks hs = on_hook ''daemon_work_done'' Do_tag_changes hs"

definition CantoShelf_hooks :: "hooks \<Rightarrow> hooks" where
  "CantoShelf_hooks hs =
     on_hook ''daemon_exit'' Shelf_close (on_hook ''daemon_work_done'' Shelf_sync hs)"

definition registered_hooks :: hooks where
  "registered_hooks = setup_hooks (CantoShelf_hooks (CantoTags_hooks []))"

definition log_error :: "string \<Rightarrow> daemon \<Rightarrow> daemon" where
  "log_error msg d = d\<lparr>logged := logged d @ [(Error, msg)]\<rparr>"

text \<open>
  \<^verbatim>\<open>cmd_configs\<close>.  \<^verbatim>\<open>escsplit\<close> (\<^verbatim>\<open>format.py\<close>, not among the sources) is a parameter: it
  splits an option path into a section and a setting, the setting being \<^verbatim>\<open>None\<close> or
  empty when the path names a whole section.
\<close>

definition cmd_configs_step ::
  "conf_reader \<Rightarrow> (string \<Rightarrow> string \<times> string option) \<Rightarrow> string \<Rightarrow>
   sections \<times> daemon \<Rightarrow> sections \<times> daemon" where
  "cmd_configs_step rd escsplit opt rd' =
     (case rd' of (ret, d) \<Rightarrow>
        (case escsplit opt of (section, setting) \<Rightarrow>
           (if setting = None \<or> setting = Some []
            then (AList.update opt (conf_get_section rd opt) ret, d)
            else
              (case conf_get rd section (case setting of Some st \<Rightarrow> st | None \<Rightarrow> []) of
                 Inr val \<Rightarrow>
                   (case map_of ret section of
                      Some cur \<Rightarrow>
                        (AList.update section
                           (AList.update (case setting of Some st \<Rightarrow> st | None \<Rightarrow> []) val cur) ret, d)
                    | None \<Rightarrow>
                        (AList.update section
                           [(case setting of Some st \<Rightarrow> st | None \<Rightarrow> [], val)] ret, d))
               | Inl e \<Rightarrow> (ret, log_error (''Exception getting option '' @ opt) d)))))"

definition cmd_configs ::
  "conf_reader \<Rightarrow> (string \<Rightarrow> string \<times> string option) \<Rightarrow> socket \<Rightarrow> string list \<Rightarrow>
   daemon \<Rightarrow> daemon" where
  "cmd_configs rd escsplit sock args d =
     (if args \<noteq> []
      then (case fold (cmd_configs_step rd escsplit) args ([], d) of
              (ret, d') \<Rightarrow> write_reply sock ''CONFIGS'' (Config_map ret) d')
      else write_reply sock ''CONFIGS'' (Config_map (conf_get_sections rd)) d)"

text \<open>
  \<^verbatim>\<open>cmd_setconfigs\<close>.  The request is a dict of dicts; both are walked in the order of
  their entries.  \<^verbatim>\<open>changes.update({section: {setting: value}})\<close> stores a one-entry
  dict under the section.  The hook call is recorded in the trace of the backend;
  what its subscribers then do is not part of this function.
\<close>

definition cmd_setconfigs_setting ::
  "string \<Rightarrow> string \<times> string \<Rightarrow> sections \<times> CantoConfig \<Rightarrow> sections \<times> CantoConfig" where
  "cmd_setconfigs_setting section sv cc =
     (case sv of (setting, v) \<Rightarrow>
        (case cc of (changes, c) \<Rightarrow>
           (AList.update section [(setting, v)] changes, conf_set section setting v c)))"

definition cmd_setconfigs_section ::
  "string \<times> settings \<Rightarrow> sections \<times> CantoConfig \<Rightarrow> sections \<times> CantoConfig" where
  "cmd_setconfigs_section sa cc =
     (case sa of (section, sett) \<Rightarrow>
        (case cc of (changes, c) \<Rightarrow>
           (if sett = [] \<and> has_section c section
            then (changes, remove_section section c)
            else fold (cmd_setconfigs_setting section) sett (changes, c))))"

definition cmd_setconfigs :: "socket \<Rightarrow> (string \<times> settings) list \<Rightarrow> daemon \<Rightarrow> daemon" where
  "cmd_setconfigs sock args d =
     (case fold cmd_setconfigs_section args ([], conf d) of
        (changes, c) \<Rightarrow>
          d\<lparr>conf := conf_write c,
            published := call_hook ''config_change'' [Changes changes] (published d)\<rparr>)"

text \<open>
  Resolving a path fails when the path names a setting and \<^verbatim>\<open>conf.get\<close> raises for it:
  the case the \<^verbatim>\<open>except\<close> branch of \<^verbatim>\<open>cmd_configs\<close> handles.
\<close>

definition path_fails :: "conf_reader \<Rightarrow> (string \<Rightarrow> string \<times> string option) \<Rightarrow> string \<Rightarrow> bool" where
  "path_fails rd escsplit opt =
     (case escsplit opt of
        (section, None) \<Rightarrow> False
      | (section, Some st) \<Rightarrow> st \<noteq> [] \<and> isl (conf_get rd section st))"

text \<open>
  What the reply has to hold, said without the loop.  A path names a whole section
  when \<^verbatim>\<open>escsplit\<close> gives it no setting; it is then answered under its own text, and a
  path with a setting under its section.  \<open>reply_lookup\<close> reads one setting of one
  section in the reply (a dict of dicts).  \<open>last_resolution\<close> walks a request from its
  last path backwards and gives, for a section and a setting, the answer of the
  last path that speaks about them: a whole-section path answers every setting of
  its section with what \<^verbatim>\<open>conf.get_section\<close> holds, a path with a setting answers that
  setting with the value of \<^verbatim>\<open>conf.get\<close>, and a path whose \<^verbatim>\<open>conf.get\<close> raises answers
  nothing.
\<close>

definition whole_section :: "(string \<Rightarrow> string \<times> string option) \<Rightarrow> string \<Rightarrow> bool" where
  "whole_section escsplit opt \<longleftrightarrow> snd (escsplit opt) = None \<or> snd (escsplit opt) = Some []"

definition resolved_key :: "(string \<Rightarrow> string \<times> string option) \<Rightarrow> string \<Rightarrow> string" where
  "resolved_key escsplit opt = (if whole_section escsplit opt then opt else fst (escsplit opt))"

definition reply_lookup :: "sections \<Rightarrow> string \<Rightarrow> string \<Rightarrow> string option" where
  "reply_lookup ret k st = (case map_of ret k of None \<Rightarrow> None | Some cur \<Rightarrow> map_of cur st)"

fun last_resolution ::
  "conf_reader \<Rightarrow> (string \<Rightarrow> string \<times> string option) \<Rightarrow> string list \<Rightarrow> string \<Rightarrow> string \<Rightarrow>
   string option" where
  "last_resolution rd escsplit [] k st = None"
| "last_resolution rd escsplit (opt # before) k st =
     (if whole_section escsplit opt
      then (if opt = k then map_of (conf_get_section rd opt) st
            else last_resolution rd escsplit before k st)
      else
        (case snd (escsplit opt) of
           None \<Rightarrow> last_resolution rd escsplit before k st
         | Some s \<Rightarrow>
             (case conf_get rd (fst (escsplit opt)) s of
                Inr v \<Rightarrow>
                  if fst (escsplit opt) = k \<and> s = st then Some v
                  else last_resolution rd escsplit before k st
              | Inl e \<Rightarrow> last_resolution rd escsplit before k st)))"

section \<open>storage.py: the shelf\<close>










section \<open>Concrete scenarios\<close>

definition aliased_registry :: CantoTags where
  "aliased_registry =
     \<lparr>tags = [(''comics'', [''item1'']), (''fun'', [''item0'', ''item1''])],
      changed_tags = [], tag_transforms = [], extra_tags = [(''comics'', [''fun''])],
      hook_calls = []\<rparr>"

definition readd_ops :: "tag_op list" where
  "readd_ops =
     [Add_tag ''a'' ''comics'', Add_tag ''b'' ''comics'',
      Remove_tag ''a'' ''comics'', Add_tag ''a'' ''comics'']"


definition two_adds :: "tag_op list" where
  "two_adds = [Add_tag ''item1'' ''comics'', Add_tag ''item2'' ''comics'']"

definition busy_daemon :: daemon where
  "busy_daemon =
     \<lparr>watches_new_tags = [1, 2, 1], watches_del_tags = [1], watches_config = [1, 1, 2],
      watches_tags = [(''comics'', [1, 2, 1]), (''news'', [2])],
      protection = [((1, ''auto''), {''item1''}), ((2, ''auto''), {''item2''})],
      dead = [(''http://a'', \<lparr>URL = ''http://a'', items = [''item1'']\<rparr>),
              (''http://b'', \<lparr>URL = ''http://b'', items = [''item0'', ''item2'']\<rparr>),
              (''http://c'', \<lparr>URL = ''http://c'', items = [''item9'']\<rparr>)],
      alltags = aliased_registry, global_transform = None,
      conf = \<lparr>in_memory = [(''defaults'', [(''rate'', ''5'')])], on_disk = []\<rparr>,
      written = [], logged = [], published = []\<rparr>"

definition split_dot :: "string \<Rightarrow> string \<times> string option" where
  "split_dot p =
     (takeWhile (\<lambda>c. c \<noteq> CHR ''.'') p,
      if CHR ''.'' \<in> set p then Some (tl (dropWhile (\<lambda>c. c \<noteq> CHR ''.'') p)) else None)"

definition demo_reader :: conf_reader where
  "demo_reader =
     \<lparr>conf_get = (\<lambda>sec st. if sec = ''defaults'' \<and> st = ''rate'' then Inr ''5''
                            else Inl (Exn ''NoOptionError'')),
      conf_get_section = (\<lambda>sec. if sec = ''defaults'' then [(''rate'', ''5'')]
                                else if sec = ''feeds'' then [(''comics'', ''http://a'')] else []),
      conf_get_sections = [(''defaults'', [(''rate'', ''5'')])]\<rparr>"

definition demo_paths :: "string list" where
  "demo_paths = [''defaults.bogus'', ''defaults.rate'', ''feeds'']"



section \<open>Properties of the tag registry\<close>

lemma add_tag_step_present:
  assumes "iid \<in> set (get_tag s name)"
  shows "add_tag_step iid name s = s"
proof -
  from assms obtain l where l: "map_of (tags s) name = Some l" "iid \<in> set l"
    by (cases "map_of (tags s) name") (auto simp: get_tag_def)
  then have "name \<in> set (map fst (tags s))"
    by (metis domI dom_map_of_conv_image_fst set_map)
  with l show ?thesis
    by (simp add: add_tag_step_def)
qed

lemma fold_add_tag_step_present:
  "\<forall>n \<in> set ns. iid \<in> set (get_tag s n) \<Longrightarrow> fold (add_tag_step iid) ns s = s"
  by (induction ns) (simp_all add: add_tag_step_present)

text \<open>
  C10.  When the id is already held by the base tag and by every alias the base tag
  resolves to (so all of these tags exist), \<^verbatim>\<open>add_tag\<close> returns the registry it was
  given: no sequence changes, \<^verbatim>\<open>changed_tags\<close> is the same list, and no hook call
  (in particular no \<^verbatim>\<open>daemon_new_tag\<close>) is added to the trace.
\<close>

theorem add_tag_present_noop:
  assumes "iid \<in> set (get_tag s name)"
    and "\<forall>e \<in> set (case map_of (extra_tags s) name of Some e \<Rightarrow> e | None \<Rightarrow> []).
           iid \<in> set (get_tag s e)"
  shows "add_tag iid name s = s"
  using assms by (simp add: add_tag_def Let_def fold_add_tag_step_present add_tag_step_present)

theorem add_tag_present_noop_witness:
  "''item1'' \<in> set (get_tag aliased_registry ''comics'') \<and>
   ''item1'' \<in> set (get_tag aliased_registry ''fun'') \<and>
   add_tag ''item1'' ''comics'' aliased_registry = aliased_registry"
  using add_tag_present_noop [of "''item1''" aliased_registry "''comics''"]
  by (simp add: aliased_registry_def get_tag_def)

subsection \<open>What one operation does to one tag\<close>

lemma map_of_keys: "k \<in> fst ` set al \<longleftrightarrow> (\<exists>v. map_of al k = Some v)"
  by (metis domIff dom_map_of_conv_image_fst not_None_eq)

lemma get_tag_add_tag_step:
  "get_tag (add_tag_step iid name s) t =
     (if t = name \<and> iid \<notin> set (get_tag s t) then get_tag s t @ [iid] else get_tag s t)"
proof (cases "map_of (tags s) name")
  case None
  then have "name \<notin> set (map fst (tags s))"
    by (simp add: map_of_eq_None_iff)
  with None show ?thesis
    by (simp add: add_tag_step_def get_tag_def Let_def call_hook_def tag_changed_def
        AList.update_conv')
next
  case (Some l)
  then have "name \<in> set (map fst (tags s))"
    by (simp add: map_of_keys)
  with Some show ?thesis
    by (simp add: add_tag_step_def get_tag_def Let_def tag_changed_def AList.update_conv')
qed

lemma get_tag_fold_add_tag_step:
  "get_tag (fold (add_tag_step iid) ns s) t =
     (if t \<in> set ns \<and> iid \<notin> set (get_tag s t) then get_tag s t @ [iid] else get_tag s t)"
  by (induction ns arbitrary: s) (auto simp: get_tag_add_tag_step)

lemma get_tag_remove_tag:
  "get_tag (remove_tag iid name s) t =
     (if t = name then remove1 iid (get_tag s t) else get_tag s t)"
  by (auto simp: remove_tag_def get_tag_def tag_changed_def AList.update_conv' remove1_idem
       split: option.splits)


lemma remove_id_fold: "remove_id iid s = fold (remove_tag iid) (map fst (tags s)) s"
  by (simp add: remove_id_def remove_tag_def [abs_def])

lemma get_tag_fold_remove_tag:
  "distinct (get_tag s t) \<Longrightarrow>
   get_tag (fold (remove_tag iid) ks s) t =
     (if t \<in> set ks then remove1 iid (get_tag s t) else get_tag s t)"
proof (induction ks arbitrary: s)
  case Nil
  then show ?case by simp
next
  case (Cons k ks)
  have d: "distinct (get_tag (remove_tag iid k s) t)"
    using Cons.prems by (auto simp: get_tag_remove_tag)
  show ?case
    using Cons.prems by (auto simp: Cons.IH [OF d] get_tag_remove_tag remove1_idem)
qed

lemma get_tag_remove_id:
  assumes "distinct (get_tag s t)"
  shows "get_tag (remove_id iid s) t = remove1 iid (get_tag s t)"
proof (cases "t \<in> set (map fst (tags s))")
  case True
  with assms show ?thesis
    by (simp add: remove_id_fold get_tag_fold_remove_tag)
next
  case False
  then have "get_tag s t = []"
    by (simp add: get_tag_def map_of_eq_None_iff [symmetric])
  with assms False show ?thesis
    by (simp add: remove_id_fold get_tag_fold_remove_tag)
qed

lemma get_tag_reset: "get_tag (reset s) t = []"
  by (simp add: reset_def get_tag_def)

lemma get_tag_set_extra_tags: "get_tag (set_extra_tags tag extras s) t = get_tag s t"
  by (simp add: set_extra_tags_def get_tag_def)

lemma get_tag_add_tag:
  "get_tag (add_tag iid name s) t = get_tag s t \<or>
   (iid \<notin> set (get_tag s t) \<and> get_tag (add_tag iid name s) t = get_tag s t @ [iid])"
  unfolding add_tag_def Let_def get_tag_fold_add_tag_step by simp


lemma get_tag_apply_op:
  assumes "distinct (get_tag s t)"
  shows "get_tag (apply_op op s) t = get_tag s t \<or>
         (\<exists>i. i \<notin> set (get_tag s t) \<and> get_tag (apply_op op s) t = get_tag s t @ [i]) \<or>
         (\<exists>i. get_tag (apply_op op s) t = remove1 i (get_tag s t)) \<or>
         get_tag (apply_op op s) t = []"
proof (cases op)
  case (Add_tag iid name)
  then show ?thesis using get_tag_add_tag [of iid name s t] by auto
next
  case (Remove_tag iid name)
  then show ?thesis by (auto simp: get_tag_remove_tag)
next
  case (Remove_id iid)
  then show ?thesis using assms by (auto simp: get_tag_remove_id)
next
  case Reset
  then show ?thesis by (simp add: get_tag_reset)
next
  case (Set_extra_tags tag extras)
  then show ?thesis by (simp add: get_tag_set_extra_tags)
qed

lemma run_ops_snoc: "run_ops (ops @ [op]) s = apply_op op (run_ops ops s)"
  by (simp add: run_ops_def)

lemma entered_at_snoc_old:
  "k < length ops \<Longrightarrow> entered_at s0 (ops @ [op]) t a k = entered_at s0 ops t a k"
  by (simp add: entered_at_def)

lemma entered_at_snoc_new:
  "entered_at s0 (ops @ [op]) t a (length ops) \<longleftrightarrow>
     a \<notin> set (get_tag (run_ops ops s0) t) \<and> a \<in> set (get_tag (apply_op op (run_ops ops s0)) t)"
  by (simp add: entered_at_def run_ops_snoc)

lemma last_inserted_snoc:
  "last_inserted s0 (ops @ [op]) t a =
     (if a \<notin> set (get_tag (run_ops ops s0) t) \<and> a \<in> set (get_tag (apply_op op (run_ops ops s0)) t)
      then Some (length ops) else last_inserted s0 ops t a)"
proof -
  have "find (entered_at s0 (ops @ [op]) t a) (rev [0..<length ops]) =
        find (entered_at s0 ops t a) (rev [0..<length ops])"
    by (rule find_cong) (simp_all add: entered_at_snoc_old)
  then show ?thesis
    by (simp add: last_inserted_def entered_at_snoc_new)
qed

lemma last_inserted_less: "last_inserted s0 ops t a = Some m \<Longrightarrow> m < length ops"
  by (auto simp: last_inserted_def find_Some_iff entered_at_def)

lemma sorted_wrt_remove1: "sorted_wrt P xs \<Longrightarrow> sorted_wrt P (remove1 x xs)"
  by (induction xs) (auto dest: notin_set_remove1)

lemma timeline_ok_snoc:
  assumes "timeline_ok s0 ops t"
  shows "timeline_ok s0 (ops @ [op]) t"
proof -
  let ?xs = "get_tag (run_ops ops s0) t"
  let ?ys = "get_tag (apply_op op (run_ops ops s0)) t"
  let ?L = "last_inserted s0 ops t"
  let ?L' = "last_inserted s0 (ops @ [op]) t"
  let ?R = "\<lambda>a b. earlier (?L a) (?L b)"
  let ?R' = "\<lambda>a b. earlier (?L' a) (?L' b)"
  from assms have d: "distinct ?xs"
    and some: "\<And>a. a \<in> set ?xs \<Longrightarrow> \<exists>m. ?L a = Some m"
    and srt: "sorted_wrt ?R ?xs"
    by (auto simp: timeline_ok_def in_last_insertion_order_def)
  have old: "\<And>a. a \<in> set ?xs \<Longrightarrow> ?L' a = ?L a"
    by (simp add: last_inserted_snoc)
  have srt': "sorted_wrt ?R' ?xs"
    using srt by (rule sorted_wrt_mono_rel [rotated]) (simp add: old)
  have goal: "distinct ?ys \<and> (\<forall>a \<in> set ?ys. \<exists>m. ?L' a = Some m) \<and> sorted_wrt ?R' ?ys"
    using get_tag_apply_op [OF d, of op]
  proof (elim disjE exE conjE)
    assume "?ys = ?xs"
    then show ?thesis using d some srt' old by auto
  next
    fix i assume i: "i \<notin> set ?xs" and ys: "?ys = ?xs @ [i]"
    have new: "?L' i = Some (length ops)"
      using i ys by (simp add: last_inserted_snoc)
    have "\<And>a. a \<in> set ?xs \<Longrightarrow> earlier (?L' a) (?L' i)"
    proof -
      fix a assume a: "a \<in> set ?xs"
      then obtain m where m: "?L a = Some m" using some by blast
      then have "m < length ops" by (rule last_inserted_less)
      with a m new old show "earlier (?L' a) (?L' i)" by simp
    qed
    then show ?thesis
      using d some srt' old i ys new by (auto simp: sorted_wrt_append)
  next
    fix i assume ys: "?ys = remove1 i ?xs"
    then have sub: "set ?ys \<subseteq> set ?xs" by (simp add: set_remove1_subset)
    show ?thesis
      using d some srt' old sub ys by (auto simp: sorted_wrt_remove1)
  next
    assume "?ys = []"
    then show ?thesis by simp
  qed
  then show ?thesis
    by (simp add: timeline_ok_def in_last_insertion_order_def run_ops_snoc)
qed

lemma timeline_ok_init: "timeline_ok CantoTags_init ops t"
proof (induction ops rule: rev_induct)
  case Nil
  then show ?case
    by (simp add: timeline_ok_def in_last_insertion_order_def run_ops_def get_tag_def CantoTags_init_def)
next
  case (snoc op ops)
  then show ?case by (rule timeline_ok_snoc)
qed


lemma keys_add_tag_step: "distinct (map fst (tags s)) \<Longrightarrow> distinct (map fst (tags (add_tag_step iid name s)))"
  by (auto simp: add_tag_step_def Let_def call_hook_def tag_changed_def AList.distinct_update
      split: option.splits)

lemma keys_remove_tag: "distinct (map fst (tags s)) \<Longrightarrow> distinct (map fst (tags (remove_tag iid name s)))"
  by (auto simp: remove_tag_def tag_changed_def AList.distinct_update split: option.splits)

lemma keys_fold:
  assumes "\<And>x s. distinct (map fst (tags s)) \<Longrightarrow> distinct (map fst (tags (f x s)))"
  shows "distinct (map fst (tags s)) \<Longrightarrow> distinct (map fst (tags (fold f xs s)))"
  by (induction xs arbitrary: s) (simp_all add: assms)

lemma keys_apply_op:
  assumes "distinct (map fst (tags s))"
  shows "distinct (map fst (tags (apply_op op s)))"
proof (cases op)
  case (Add_tag iid name)
  show ?thesis
    unfolding Add_tag apply_op.simps add_tag_def Let_def
    using assms by (rule keys_fold [rotated]) (rule keys_add_tag_step)
next
  case (Remove_tag iid name)
  with assms show ?thesis by (simp add: keys_remove_tag)
next
  case (Remove_id iid)
  show ?thesis
    unfolding Remove_id apply_op.simps remove_id_fold
    using assms by (rule keys_fold [rotated]) (rule keys_remove_tag)
next
  case Reset
  then show ?thesis by (simp add: reset_def)
next
  case (Set_extra_tags tag extras)
  with assms show ?thesis by (simp add: set_extra_tags_def)
qed

lemma keys_run_ops: "distinct (map fst (tags (run_ops ops CantoTags_init)))"
proof -
  have "distinct (map fst (tags CantoTags_init))" by (simp add: CantoTags_init_def)
  then show ?thesis
    unfolding run_ops_def by (rule keys_fold [rotated]) (rule keys_apply_op)
qed

text \<open>
  C1 (as amended).  From the empty registry, after any history of \<^verbatim>\<open>add_tag\<close>,
  \<^verbatim>\<open>remove_tag\<close>, \<^verbatim>\<open>remove_id\<close> (and \<^verbatim>\<open>reset\<close>, \<^verbatim>\<open>set_extra_tags\<close>) calls, the keys of
  the registry are distinct, every tag's sequence holds each id at most once, and
  the ids of a tag stand in the order of their latest insertion: an id that was
  removed and added again stands after the ids that stayed.
\<close>

theorem tag_sequences_distinct_in_insertion_order:
  "distinct (map fst (tags (run_ops ops CantoTags_init))) \<and>
   distinct (get_tag (run_ops ops CantoTags_init) tag) \<and>
   in_last_insertion_order CantoTags_init ops tag"
  using timeline_ok_init [of ops tag] by (simp add: timeline_ok_def keys_run_ops)

text \<open>
  C1 as stated fails: add \<open>a\<close>, add \<open>b\<close>, remove \<open>a\<close>, add \<open>a\<close> again leaves the tag as
  \<open>[b, a]\<close>, while \<open>a\<close> was first inserted (step 0) before \<open>b\<close> (step 1).
\<close>

theorem first_insertion_order_counterexample:
  "get_tag (run_ops readd_ops CantoTags_init) ''comics'' = [''b'', ''a''] \<and>
   first_inserted CantoTags_init readd_ops ''comics'' ''a'' = Some 0 \<and>
   first_inserted CantoTags_init readd_ops ''comics'' ''b'' = Some 1 \<and>
   \<not> in_first_insertion_order CantoTags_init readd_ops ''comics''"
  by code_simp

subsection \<open>The dirty list and the flush\<close>

lemma dirty_grows_refl: "dirty_grows s s"
  by (simp add: dirty_grows_def)

lemma dirty_grows_trans: "dirty_grows s s' \<Longrightarrow> dirty_grows s' s'' \<Longrightarrow> dirty_grows s s''"
  by (auto simp: dirty_grows_def)

lemma dirty_grows_fold:
  assumes "\<And>x s. dirty_grows s (f x s)"
  shows "dirty_grows s (fold f xs s)"
proof (induction xs arbitrary: s)
  case Nil
  show ?case by (simp add: dirty_grows_refl)
next
  case (Cons x xs)
  show ?case
    using dirty_grows_trans [OF assms Cons.IH] by simp
qed

lemma dirty_grows_tag_changed: "dirty_grows s (tag_changed t s)"
  by (auto simp: dirty_grows_def tag_changed_def)

lemma dirty_grows_add_tag_step: "dirty_grows s (add_tag_step iid name s)"
  by (auto simp: dirty_grows_def add_tag_step_def Let_def call_hook_def tag_changed_def
      split: option.splits)

lemma dirty_grows_remove_tag: "dirty_grows s (remove_tag iid name s)"
  by (auto simp: dirty_grows_def remove_tag_def tag_changed_def split: option.splits)

lemma dirty_grows_apply_op: "dirty_grows s (apply_op op s)"
proof (cases op)
  case (Add_tag iid name)
  show ?thesis
    unfolding Add_tag apply_op.simps add_tag_def Let_def
    by (rule dirty_grows_fold) (rule dirty_grows_add_tag_step)
next
  case (Remove_tag iid name)
  then show ?thesis by (simp add: dirty_grows_remove_tag)
next
  case (Remove_id iid)
  then show ?thesis by (simp add: remove_id_fold dirty_grows_fold dirty_grows_remove_tag)
next
  case Reset
  have "dirty_grows (s\<lparr>tag_transforms := [], extra_tags := []\<rparr>)
          (fold tag_changed (map fst (tags s)) (s\<lparr>tag_transforms := [], extra_tags := []\<rparr>))"
    by (rule dirty_grows_fold) (rule dirty_grows_tag_changed)
  with Reset show ?thesis by (simp add: reset_def dirty_grows_def)
next
  case (Set_extra_tags tag extras)
  then show ?thesis by (simp add: set_extra_tags_def dirty_grows_def)
qed

lemma dirty_grows_run_ops: "dirty_grows s (run_ops ops s)"
  unfolding run_ops_def by (rule dirty_grows_fold) (rule dirty_grows_apply_op)

lemma dirty_le_fold:
  assumes "\<And>x s s'. dirty_le s s' \<Longrightarrow> dirty_le (f x s) (f x s')"
  shows "dirty_le s s' \<Longrightarrow> dirty_le (fold f xs s) (fold f xs s')"
  by (induction xs arbitrary: s s') (simp_all add: assms)

lemma dirty_le_tag_changed: "dirty_le s s' \<Longrightarrow> dirty_le (tag_changed t s) (tag_changed t s')"
  by (auto simp: dirty_le_def tag_changed_def)

lemma dirty_le_add_tag_step:
  "dirty_le s s' \<Longrightarrow> dirty_le (add_tag_step iid name s) (add_tag_step iid name s')"
  by (auto simp: dirty_le_def add_tag_step_def Let_def call_hook_def tag_changed_def
      split: option.splits)

lemma dirty_le_remove_tag:
  "dirty_le s s' \<Longrightarrow> dirty_le (remove_tag iid name s) (remove_tag iid name s')"
  by (auto simp: dirty_le_def remove_tag_def tag_changed_def split: option.splits)

lemma dirty_le_apply_op:
  assumes "dirty_le s s'"
  shows "dirty_le (apply_op op s) (apply_op op s')"
proof (cases op)
  case (Add_tag iid name)
  from assms have "extra_tags s = extra_tags s'" by (simp add: dirty_le_def)
  then show ?thesis
    unfolding Add_tag apply_op.simps add_tag_def Let_def
    using assms by (simp only: dirty_le_fold [OF dirty_le_add_tag_step])
next
  case (Remove_tag iid name)
  with assms show ?thesis by (simp add: dirty_le_remove_tag)
next
  case (Remove_id iid)
  from assms have "tags s = tags s'" by (simp add: dirty_le_def)
  with Remove_id assms show ?thesis
    by (simp add: remove_id_fold dirty_le_fold dirty_le_remove_tag)
next
  case Reset
  from assms have t: "tags s = tags s'" by (simp add: dirty_le_def)
  from assms have "dirty_le (s\<lparr>tag_transforms := [], extra_tags := []\<rparr>)
     (s'\<lparr>tag_transforms := [], extra_tags := []\<rparr>)"
    by (simp add: dirty_le_def)
  then have "dirty_le (fold tag_changed (map fst (tags s)) (s\<lparr>tag_transforms := [], extra_tags := []\<rparr>))
     (fold tag_changed (map fst (tags s)) (s'\<lparr>tag_transforms := [], extra_tags := []\<rparr>))"
    by (rule dirty_le_fold [rotated]) (rule dirty_le_tag_changed)
  with Reset t show ?thesis by (simp add: reset_def dirty_le_def)
next
  case (Set_extra_tags tag extras)
  with assms show ?thesis by (simp add: set_extra_tags_def dirty_le_def)
qed

lemma marks_dirty_member:
  assumes "marks_dirty op s t"
  shows "t \<in> set (changed_tags (apply_op op s))"
proof -
  have "dirty_le (s\<lparr>changed_tags := []\<rparr>) s" by (simp add: dirty_le_def)
  then have "dirty_le (apply_op op (s\<lparr>changed_tags := []\<rparr>)) (apply_op op s)"
    by (rule dirty_le_apply_op)
  with assms show ?thesis by (auto simp: dirty_le_def marks_dirty_def)
qed

lemma dirty_marks_member:
  "t \<in> set (changed_tags s) \<or> 1 \<le> dirty_marks ops s t \<Longrightarrow>
   t \<in> set (changed_tags (run_ops ops s))"
proof (induction ops arbitrary: s)
  case Nil
  then show ?case by (simp add: run_ops_def)
next
  case (Cons op ops)
  have "t \<in> set (changed_tags (apply_op op s)) \<or> 1 \<le> dirty_marks ops (apply_op op s) t"
  proof (cases "t \<in> set (changed_tags s)")
    case True
    then show ?thesis using dirty_grows_apply_op [of s op] by (auto simp: dirty_grows_def)
  next
    case False
    with Cons.prems show ?thesis
      by (cases "marks_dirty op s t") (auto dest: marks_dirty_member)
  qed
  from Cons.IH [OF this] show ?case by (simp add: run_ops_def)
qed

lemma hook_calls_fold_call_hook:
  "hook_calls (fold (\<lambda>x s'. s'\<lparr>hook_calls := call_hook name (f x) (hook_calls s')\<rparr>) xs s) =
     hook_calls s @ map (\<lambda>x. (name, f x)) xs"
  by (induction xs arbitrary: s) (simp_all add: call_hook_def)

lemma changed_tags_fold_call_hook:
  "changed_tags (fold (\<lambda>x s'. s'\<lparr>hook_calls := call_hook name (f x) (hook_calls s')\<rparr>) xs s) =
     changed_tags s"
  by (induction xs arbitrary: s) simp_all

lemma flushed_eq: "flushed s = map (\<lambda>tag. (''daemon_tag_change'', [Name tag])) (changed_tags s)"
  by (simp add: flushed_def do_tag_changes_def hook_calls_fold_call_hook)

lemma count_list_tag_change:
  "count_list (map (\<lambda>tag. (n, [Name tag])) xs) (n, [Name t]) = count_list xs t"
  by (induction xs) simp_all

lemma count_list_distinct: "distinct xs \<Longrightarrow> x \<in> set xs \<Longrightarrow> count_list xs x = 1"
  by (induction xs) (auto simp: count_list_0_iff)

text \<open>
  C2.  A batch starts with an empty dirty list.  If at least one operation of the
  batch marks the tag dirty (however many do), \<^verbatim>\<open>do_tag_changes\<close> adds exactly one
  \<^verbatim>\<open>daemon_tag_change\<close> call for that tag to the trace, and leaves the dirty list empty.
\<close>

theorem flush_publishes_once:
  assumes "changed_tags s0 = []" and "1 \<le> dirty_marks ops s0 tag"
  shows "count_list (flushed (run_ops ops s0)) (''daemon_tag_change'', [Name tag]) = 1 \<and>
         changed_tags (do_tag_changes (run_ops ops s0)) = []"
proof -
  have "distinct (changed_tags (run_ops ops s0))"
    using dirty_grows_run_ops [of s0 ops] assms(1) by (simp add: dirty_grows_def)
  moreover have "tag \<in> set (changed_tags (run_ops ops s0))"
    using assms(2) by (simp add: dirty_marks_member)
  ultimately show ?thesis
    by (simp add: flushed_eq count_list_tag_change count_list_distinct do_tag_changes_def)
qed


theorem flush_publishes_once_witness:
  "changed_tags CantoTags_init = [] \<and>
   dirty_marks two_adds CantoTags_init ''comics'' = 2 \<and>
   count_list (flushed (run_ops two_adds CantoTags_init)) (''daemon_tag_change'', [Name ''comics'']) = 1 \<and>
   changed_tags (do_tag_changes (run_ops two_adds CantoTags_init)) = []"
proof -
  have a: "changed_tags CantoTags_init = []"
    by (simp add: CantoTags_init_def)
  have b: "dirty_marks two_adds CantoTags_init ''comics'' = 2"
    by code_simp
  from flush_publishes_once [OF a, of two_adds "''comics''"] a b show ?thesis
    by simp
qed

section \<open>Properties of the dispatcher\<close>

subsection \<open>Disconnect\<close>

lemma removeAll_remove1: "removeAll x (remove1 x xs) = removeAll x xs"
  by (induction xs) auto

lemma remove_socket_removeAll: "remove_socket sock l = removeAll sock l"
proof (induction sock l rule: remove_socket.induct)
  case (1 sock l)
  show ?case
  proof (cases "sock \<in> set l")
    case True
    with "1" show ?thesis
      by (subst remove_socket.simps) (simp add: removeAll_remove1)
  next
    case False
    then show ?thesis
      by (subst remove_socket.simps) simp
  qed
qed

lemma drop_watch_step_lookup:
  "map_of (watches_tags (drop_watch_step sock tag d)) t =
     (if t = tag then map_option (removeAll sock) (map_of (watches_tags d) t)
      else map_of (watches_tags d) t)"
  by (cases "map_of (watches_tags d) tag")
     (simp_all add: drop_watch_step_def AList.update_conv' remove_socket_removeAll)

lemma drop_watch_fold_lookup:
  "map_of (watches_tags (fold (drop_watch_step sock) ks d)) t =
     (if t \<in> set ks then map_option (removeAll sock) (map_of (watches_tags d) t)
      else map_of (watches_tags d) t)"
proof (induction ks arbitrary: d)
  case Nil
  show ?case by simp
next
  case (Cons k ks)
  show ?case
    by (cases "map_of (watches_tags d) t") (auto simp: Cons.IH drop_watch_step_lookup)
qed

lemma drop_watch_step_frame:
  "watches_config (drop_watch_step sock tag d) = watches_config d"
  "watches_new_tags (drop_watch_step sock tag d) = watches_new_tags d"
  "watches_del_tags (drop_watch_step sock tag d) = watches_del_tags d"
  "protection (drop_watch_step sock tag d) = protection d"
  by (cases "map_of (watches_tags d) tag"; simp add: drop_watch_step_def)+

lemma drop_watch_fold_frame:
  "watches_config (fold (drop_watch_step sock) ks d) = watches_config d"
  "watches_new_tags (fold (drop_watch_step sock) ks d) = watches_new_tags d"
  "watches_del_tags (fold (drop_watch_step sock) ks d) = watches_del_tags d"
  "protection (fold (drop_watch_step sock) ks d) = protection d"
  by (induction ks arbitrary: d; simp add: drop_watch_step_frame)+


lemma dead_feed_step_frame:
  "watches_config (dead_feed_step u d) = watches_config d"
  "watches_new_tags (dead_feed_step u d) = watches_new_tags d"
  "watches_del_tags (dead_feed_step u d) = watches_del_tags d"
  "watches_tags (dead_feed_step u d) = watches_tags d"
  "protection (dead_feed_step u d) = protection d"
  "written (dead_feed_step u d) = written d"
  by (simp_all add: dead_feed_step_def log_debug_def split: option.splits)

lemma check_dead_feeds_frame:
  "watches_config (check_dead_feeds d) = watches_config d"
  "watches_new_tags (check_dead_feeds d) = watches_new_tags d"
  "watches_del_tags (check_dead_feeds d) = watches_del_tags d"
  "watches_tags (check_dead_feeds d) = watches_tags d"
  "protection (check_dead_feeds d) = protection d"
  "written (check_dead_feeds d) = written d"
proof -
  have "watches_config (fold dead_feed_step ks d) = watches_config d \<and>
        watches_new_tags (fold dead_feed_step ks d) = watches_new_tags d \<and>
        watches_del_tags (fold dead_feed_step ks d) = watches_del_tags d \<and>
        watches_tags (fold dead_feed_step ks d) = watches_tags d \<and>
        protection (fold dead_feed_step ks d) = protection d \<and>
        written (fold dead_feed_step ks d) = written d" for ks
    by (induction ks arbitrary: d) (simp_all add: dead_feed_step_frame)
  then show
    "watches_config (check_dead_feeds d) = watches_config d"
    "watches_new_tags (check_dead_feeds d) = watches_new_tags d"
    "watches_del_tags (check_dead_feeds d) = watches_del_tags d"
    "watches_tags (check_dead_feeds d) = watches_tags d"
    "protection (check_dead_feeds d) = protection d"
    "written (check_dead_feeds d) = written d"
    by (simp_all add: check_dead_feeds_def)
qed

lemma drop_watches_lookup:
  "map_of (watches_tags (drop_watches sock d)) t = map_option (removeAll sock) (map_of (watches_tags d) t)"
proof (cases "map_of (watches_tags d) t")
  case None
  then show ?thesis
    by (simp add: drop_watches_def drop_watch_fold_lookup)
next
  case (Some l)
  then have "t \<in> fst ` set (watches_tags d)"
    by (simp add: map_of_keys)
  with Some show ?thesis
    by (simp add: drop_watches_def drop_watch_fold_lookup)
qed

lemma drop_watches_frame:
  "watches_config (drop_watches sock d) = removeAll sock (watches_config d)"
  "watches_new_tags (drop_watches sock d) = removeAll sock (watches_new_tags d)"
  "watches_del_tags (drop_watches sock d) = removeAll sock (watches_del_tags d)"
  "protection (drop_watches sock d) = protection d"
  by (simp_all add: drop_watches_def drop_watch_fold_frame remove_socket_removeAll)

text \<open>
  C6.  After \<^verbatim>\<open>on_kill_socket\<close> ran for a socket, whatever the watch registry held
  before (the socket may stand several times in a list), the socket is in none of
  the config, new-tag and del-tag watch lists, in no list the per-tag dict maps a
  tag to, and the protection registry has no entry under the socket's \<^verbatim>\<open>"auto"\<close> key.
\<close>

theorem on_kill_socket_removes_socket:
  "sock \<notin> set (watches_config (on_kill_socket sock d)) \<and>
   sock \<notin> set (watches_new_tags (on_kill_socket sock d)) \<and>
   sock \<notin> set (watches_del_tags (on_kill_socket sock d)) \<and>
   (\<forall>tag l. map_of (watches_tags (on_kill_socket sock d)) tag = Some l \<longrightarrow> sock \<notin> set l) \<and>
   map_of (protection (on_kill_socket sock d)) (sock, ''auto'') = None"
proof -
  have w: "watches_tags (on_kill_socket sock d) = watches_tags (drop_watches sock d)"
    by (simp add: on_kill_socket_def check_dead_feeds_frame)
  have "sock \<notin> set l" if "map_of (watches_tags (on_kill_socket sock d)) tag = Some l" for tag l
    using that unfolding w drop_watches_lookup by auto
  moreover have "sock \<notin> set (watches_config (on_kill_socket sock d))"
    by (simp add: on_kill_socket_def check_dead_feeds_frame drop_watches_frame)
  moreover have "sock \<notin> set (watches_new_tags (on_kill_socket sock d))"
    by (simp add: on_kill_socket_def check_dead_feeds_frame drop_watches_frame)
  moreover have "sock \<notin> set (watches_del_tags (on_kill_socket sock d))"
    by (simp add: on_kill_socket_def check_dead_feeds_frame drop_watches_frame)
  moreover have "map_of (protection (on_kill_socket sock d)) (sock, ''auto'') = None"
    by (simp add: on_kill_socket_def check_dead_feeds_frame unprotect_def AList.delete_conv')
  ultimately show ?thesis by blast
qed


theorem on_kill_socket_removes_socket_witness:
  "watches_config (on_kill_socket 1 busy_daemon) = [2] \<and>
   watches_new_tags (on_kill_socket 1 busy_daemon) = [2] \<and>
   watches_del_tags (on_kill_socket 1 busy_daemon) = [] \<and>
   map_of (watches_tags (on_kill_socket 1 busy_daemon)) ''comics'' = Some [2] \<and>
   1 \<notin> set [2::nat] \<and>
   map_of (protection (on_kill_socket 1 busy_daemon)) (1, ''auto'') = None"
proof -
  have "watches_config (on_kill_socket 1 busy_daemon) = [2]"
       "watches_new_tags (on_kill_socket 1 busy_daemon) = [2]"
       "watches_del_tags (on_kill_socket 1 busy_daemon) = []"
       "map_of (watches_tags (on_kill_socket 1 busy_daemon)) ''comics'' = Some [2]"
    by (simp_all add: busy_daemon_def on_kill_socket_def drop_watches_def drop_watch_step_def
      remove_socket_removeAll unprotect_def check_dead_feeds_def dead_feed_step_def
      really_dead_def protected_def log_debug_def)
  with on_kill_socket_removes_socket [of 1 busy_daemon] show ?thesis
    by simp
qed

subsection \<open>Dead feeds\<close>

lemma dead_fold_filter:
  assumes "distinct (map fst (dead d))" and "\<forall>(u, f) \<in> set (dead d). URL f = u"
  shows "dead (fold dead_feed_step ks d) =
           filter (\<lambda>(u, f). u \<notin> set ks \<or> (\<exists>i \<in> set (items f). protected (protection d) i)) (dead d)"
  using assms
proof (induction ks arbitrary: d)
  case Nil
  show ?case by simp
next
  case (Cons k ks)
  let ?keep = "\<lambda>f. \<exists>i \<in> set (items f). protected (protection d) i"
  show ?case
  proof (cases "map_of (dead d) k")
    case None
    then have step: "dead_feed_step k d = d"
      by (simp add: dead_feed_step_def)
    from None have "\<And>u f. (u, f) \<in> set (dead d) \<Longrightarrow> u \<noteq> k"
      by (metis map_of_eq_None_iff fst_conv image_eqI)
    then have "filter (\<lambda>(u, f). u \<notin> set ks \<or> ?keep f) (dead d) =
               filter (\<lambda>(u, f). u \<notin> set (k # ks) \<or> ?keep f) (dead d)"
      by (intro filter_cong) auto
    with Cons.IH [OF Cons.prems] step show ?thesis by simp
  next
    case (Some f)
    with Cons.prems have kf: "(k, f) \<in> set (dead d)" "URL f = k"
      by (auto dest: map_of_SomeD)
    have uniq: "\<And>f'. (k, f') \<in> set (dead d) \<Longrightarrow> f' = f"
      using Cons.prems(1) Some by (metis map_of_is_SomeI option.inject)
    show ?thesis
    proof (cases "find (protected (protection d)) (items f)")
      case None
      then have nokeep: "\<not> ?keep f"
        by (simp add: find_None_iff)
      from None Some kf have step: "dead_feed_step k d = d\<lparr>dead := AList.delete k (dead d)\<rparr>"
        by (simp add: dead_feed_step_def really_dead_def)
      have d1: "distinct (map fst (dead (d\<lparr>dead := AList.delete k (dead d)\<rparr>)))"
        using Cons.prems(1) by (simp add: AList.distinct_delete)
      have d2: "\<forall>(u, f) \<in> set (dead (d\<lparr>dead := AList.delete k (dead d)\<rparr>)). URL f = u"
        using Cons.prems(2) by (auto simp: AList.delete_eq)
      have "filter (\<lambda>(u, f). u \<notin> set ks \<or> ?keep f) (AList.delete k (dead d)) =
            filter (\<lambda>(u, f). u \<notin> set (k # ks) \<or> ?keep f) (dead d)"
        unfolding AList.delete_eq filter_filter
        using nokeep uniq by (intro filter_cong) auto
      with Cons.IH [OF d1 d2] step show ?thesis by simp
    next
      case (Some i)
      then have keep: "?keep f"
        by (auto simp: find_Some_iff)
      from Some \<open>map_of (dead d) k = Some f\<close> have step:
        "dead (dead_feed_step k d) = dead d" "protection (dead_feed_step k d) = protection d"
        by (simp_all add: dead_feed_step_def log_debug_def)
      have "filter (\<lambda>(u, f). u \<notin> set ks \<or> ?keep f) (dead d) =
            filter (\<lambda>(u, f). u \<notin> set (k # ks) \<or> ?keep f) (dead d)"
        using keep uniq by (intro filter_cong) auto
      moreover have "dead (fold dead_feed_step ks (dead_feed_step k d)) =
            filter (\<lambda>(u, f). u \<notin> set ks \<or> ?keep f) (dead d)"
        using Cons.IH [of "dead_feed_step k d"] Cons.prems by (simp add: step)
      ultimately show ?thesis by simp
    qed
  qed
qed

lemma check_dead_feeds_filter:
  assumes "distinct (map fst (dead d))" and "\<forall>(u, f) \<in> set (dead d). URL f = u"
  shows "dead (check_dead_feeds d) =
           filter (\<lambda>(u, f). \<exists>i \<in> set (items f). protected (protection d) i) (dead d)"
proof -
  have "filter (\<lambda>(u, f). u \<notin> set (map fst (dead d)) \<or> (\<exists>i \<in> set (items f). protected (protection d) i)) (dead d) =
        filter (\<lambda>(u, f). \<exists>i \<in> set (items f). protected (protection d) i) (dead d)"
    by (intro filter_cong) force+
  with dead_fold_filter [OF assms, of "map fst (dead d)"] show ?thesis
    by (simp add: check_dead_feeds_def)
qed

text \<open>
  C5.  In a dead-feed dict that is keyed by the URL of each feed, one run of
  \<^verbatim>\<open>check_dead_feeds\<close> removes a feed iff none of its items is protected by any entry
  of the protection registry; a feed with a protected item stays.
\<close>

theorem check_dead_feeds_discards_iff_unprotected:
  assumes "distinct (map fst (dead d))" and "\<forall>(u, f) \<in> set (dead d). URL f = u"
    and "(u, f) \<in> set (dead d)"
  shows "(u, f) \<notin> set (dead (check_dead_feeds d)) \<longleftrightarrow>
         (\<forall>i \<in> set (items f). \<not> protected (protection d) i)"
  using assms(3) by (auto simp: check_dead_feeds_filter [OF assms(1,2)])


theorem check_dead_feeds_discards_iff_unprotected_witness:
  "distinct (map fst (dead busy_daemon)) \<and>
   (''http://c'', \<lparr>URL = ''http://c'', items = [''item9'']\<rparr>) \<in> set (dead busy_daemon) \<and>
   \<not> protected (protection busy_daemon) ''item9'' \<and>
   (''http://c'', \<lparr>URL = ''http://c'', items = [''item9'']\<rparr>) \<notin> set (dead (check_dead_feeds busy_daemon))"
proof -
  have a: "distinct (map fst (dead busy_daemon))"
    by (simp add: busy_daemon_def)
  have b: "\<forall>(u, f) \<in> set (dead busy_daemon). URL f = u"
    by (simp add: busy_daemon_def)
  have c: "(''http://c'', \<lparr>URL = ''http://c'', items = [''item9'']\<rparr>) \<in> set (dead busy_daemon)"
    by (simp add: busy_daemon_def)
  have d: "\<not> protected (protection busy_daemon) ''item9''"
    by (simp add: busy_daemon_def protected_def)
  from check_dead_feeds_discards_iff_unprotected [OF a b c] a c d show ?thesis
    by simp
qed

subsection \<open>ITEMS\<close>

lemma set_update_subset: "set (AList.update k v al) \<subseteq> insert (k, v) (set al)"
  by (induction al) auto

lemma entry_protect:
  "entry (protect key ids p) key' = (if key' = key then entry p key \<union> set ids else entry p key')"
  by (simp add: entry_def protect_def AList.update_conv')

lemma cmd_items_loop_inv:
  assumes "\<forall>(tag, ids) \<in> set response. set ids \<subseteq> entry (protection d) (sock, ''auto'')"
  shows "case cmd_items_loop sock args (response, d) of
           (response', d') \<Rightarrow>
             (\<forall>(tag, ids) \<in> set response'. set ids \<subseteq> entry (protection d') (sock, ''auto'')) \<and>
             written d' = written d"
  using assms
proof (induction args arbitrary: response d)
  case Nil
  then show ?case by (simp add: cmd_items_loop_def)
next
  case (Cons tag args)
  let ?new = "apply_transforms d (get_tag (alltags d) tag)"
  let ?r = "AList.update tag ?new response"
  let ?d = "d\<lparr>protection := protect (sock, ''auto'') ?new (protection d)\<rparr>"
  have step: "cmd_items_loop sock (tag # args) (response, d) = cmd_items_loop sock args (?r, ?d)"
    by (simp add: cmd_items_loop_def cmd_items_step_def Let_def AList.update_conv')
  have "\<forall>(t, ids) \<in> set ?r. set ids \<subseteq> entry (protection ?d) (sock, ''auto'')"
    using Cons.prems set_update_subset [of tag ?new response]
    by (auto simp: entry_protect)
  from Cons.IH [OF this] show ?case
    unfolding step by (simp add: split_def)
qed

text \<open>
  C4.  \<^verbatim>\<open>cmd_items\<close> is its loop followed by one write: the state the \<^verbatim>\<open>ITEMS\<close> reply is
  written from has had nothing written since entry, and in it every id of every
  list of the response is in the protection entry of the key (socket, \<^verbatim>\<open>"auto"\<close>).
\<close>

theorem cmd_items_protects_before_write:
  "case cmd_items_loop sock args ([], d) of
     (response, d') \<Rightarrow>
       cmd_items sock args d = write_reply sock ''ITEMS'' (Item_lists response) d' \<and>
       written d' = written d \<and>
       (\<forall>(tag, ids) \<in> set response. set ids \<subseteq> entry (protection d') (sock, ''auto''))"
  using cmd_items_loop_inv [of "[]" d sock args]
  by (auto simp: cmd_items_def split: prod.splits)


theorem cmd_items_protects_before_write_witness:
  "written (cmd_items 2 [''comics'', ''nope''] busy_daemon) =
     [(2, ''ITEMS'', Item_lists [(''comics'', [''item1'']), (''nope'', [])])] \<and>
   \<not> ''item1'' \<in> entry (protection busy_daemon) (2, ''auto'') \<and>
   ''item1'' \<in> entry (protection (cmd_items 2 [''comics'', ''nope''] busy_daemon)) (2, ''auto'')"
proof -
  have l: "cmd_items_loop 2 [''comics'', ''nope''] ([], busy_daemon) =
     ([(''comics'', [''item1'']), (''nope'', [])],
      busy_daemon\<lparr>protection := [((1, ''auto''), {''item1''}), ((2, ''auto''), {''item2'', ''item1''})]\<rparr>)"
    by (simp add: cmd_items_loop_def cmd_items_step_def busy_daemon_def apply_transforms_def
        get_tag_def aliased_registry_def protect_def entry_def insert_commute)
  from cmd_items_protects_before_write [of 2 "[''comics'', ''nope'']" busy_daemon] show ?thesis
    unfolding l by (simp add: write_reply_def busy_daemon_def entry_def)
qed

section \<open>Properties of the hook subscriptions\<close>

text \<open>
  When \<^verbatim>\<open>on_new_tag\<close> is invoked, it writes \<^verbatim>\<open>NEWTAGS\<close> to every socket of the new-tag
  watch list.
\<close>

lemma on_new_tag_written:
  "written (on_new_tag tgs d) =
     written d @ map (\<lambda>sock. (sock, ''NEWTAGS'', Tag_names tgs)) (watches_new_tags d)"
proof -
  have "written (fold (\<lambda>sock. write_reply sock ''NEWTAGS'' (Tag_names tgs)) socks d) =
        written d @ map (\<lambda>sock. (sock, ''NEWTAGS'', Tag_names tgs)) socks" for socks
    by (induction socks arbitrary: d) (simp_all add: write_reply_def)
  then show ?thesis
    by (simp add: on_new_tag_def)
qed

text \<open>
  C3.  The code at the claim's scenario: \<^verbatim>\<open>add_tag\<close> creating the tag \<open>comics\<close> in the
  empty registry publishes one call, named \<^verbatim>\<open>daemon_new_tag\<close>.  Among the subscriptions
  the sources make, no handler stands under that name; \<^verbatim>\<open>on_new_tag\<close> stands under
  \<^verbatim>\<open>new_tag\<close>.  So the call reaches no handler and no \<^verbatim>\<open>NEWTAGS\<close> is written.
\<close>

theorem new_tag_event_reaches_no_handler:
  "hook_calls (add_tag ''item1'' ''comics'' CantoTags_init) =
     [(''daemon_new_tag'', [Names [''comics'']])] \<and>
   hook_handlers registered_hooks ''daemon_new_tag'' = [] \<and>
   hook_handlers registered_hooks ''new_tag'' = [On_new_tag]"
  by code_simp

section \<open>Properties of the configuration commands\<close>

text \<open>
  Whatever the request, \<^verbatim>\<open>cmd_setconfigs\<close> publishes one \<^verbatim>\<open>config_change\<close> call, after the
  loop, with the \<^verbatim>\<open>changes\<close> dict the loop built.
\<close>

lemma cmd_setconfigs_publishes_once:
  "published (cmd_setconfigs sock args d) =
     published d @
       [(''config_change'', [Changes (fst (fold cmd_setconfigs_section args ([], conf d)))])]"
  by (simp add: cmd_setconfigs_def call_hook_def split: prod.splits)

text \<open>
  C7.  The code at a request that sets two settings of one section: both are applied
  to the configuration, one \<^verbatim>\<open>config_change\<close> call is published, and its payload maps
  the section to the last pair only, since each \<^verbatim>\<open>changes.update\<close> replaces the section's
  entry.
\<close>

theorem setconfigs_payload_keeps_last_setting:
  "published (cmd_setconfigs 1 [(''defaults'', [(''rate'', ''10''), (''keep'', ''40'')])] busy_daemon) =
     [(''config_change'', [Changes [(''defaults'', [(''keep'', ''40'')])]])] \<and>
   in_memory (conf (cmd_setconfigs 1 [(''defaults'', [(''rate'', ''10''), (''keep'', ''40'')])] busy_daemon)) =
     [(''defaults'', [(''rate'', ''10''), (''keep'', ''40'')])]"
  by (simp add: cmd_setconfigs_def cmd_setconfigs_section_def cmd_setconfigs_setting_def
      busy_daemon_def has_section_def conf_set_def conf_write_def call_hook_def)


lemma cmd_configs_step_fails:
  "path_fails rd esc opt \<Longrightarrow>
   cmd_configs_step rd esc opt (ret, d) = (ret, log_error (''Exception getting option '' @ opt) d)"
  by (cases "esc opt")
     (auto simp: cmd_configs_step_def path_fails_def split: option.splits sum.splits)

lemma cmd_configs_step_resolves_aux:
  "\<not> path_fails rd esc opt \<Longrightarrow>
   cmd_configs_step rd esc opt (ret, d) = (fst (cmd_configs_step rd esc opt (ret, d')), d)"
  by (cases "esc opt")
     (auto simp: cmd_configs_step_def path_fails_def split: option.splits sum.splits)

lemma cmd_configs_step_resolves:
  assumes "\<not> path_fails rd esc opt"
  shows "\<exists>r. \<forall>d. cmd_configs_step rd esc opt (ret, d) = (r, d)"
  using cmd_configs_step_resolves_aux [OF assms, of ret _ undefined] by blast

lemma cmd_configs_fold_fst:
  "fst (fold (cmd_configs_step rd esc) args (ret, d)) =
   fst (fold (cmd_configs_step rd esc) args (ret, d'))"
proof (induction args arbitrary: ret d d')
  case Nil
  show ?case by simp
next
  case (Cons opt args)
  show ?case
  proof (cases "path_fails rd esc opt")
    case True
    then show ?thesis
      using Cons.IH by (simp add: cmd_configs_step_fails)
  next
    case False
    with cmd_configs_step_resolves [of rd esc opt ret]
    obtain r where "\<And>d. cmd_configs_step rd esc opt (ret, d) = (r, d)"
      by blast
    then show ?thesis
      using Cons.IH by simp
  qed
qed

lemma cmd_configs_fold_skips_failures:
  "fst (fold (cmd_configs_step rd esc) args (ret, d)) =
   fst (fold (cmd_configs_step rd esc) (filter (\<lambda>p. \<not> path_fails rd esc p) args) (ret, d))"
proof (induction args arbitrary: ret d)
  case Nil
  show ?case by simp
next
  case (Cons opt args)
  show ?case
  proof (cases "path_fails rd esc opt")
    case True
    then show ?thesis
      using Cons.IH [of ret d]
        cmd_configs_fold_fst [of rd esc args ret "log_error (''Exception getting option '' @ opt) d" d]
      by (simp add: cmd_configs_step_fails)
  next
    case False
    with cmd_configs_step_resolves [of rd esc opt ret]
    obtain r where "\<And>d. cmd_configs_step rd esc opt (ret, d) = (r, d)"
      by blast
    then show ?thesis
      using False Cons.IH by simp
  qed
qed

lemma cmd_configs_fold_snd:
  "written (snd (fold (cmd_configs_step rd esc) args (ret, d))) = written d \<and>
   logged (snd (fold (cmd_configs_step rd esc) args (ret, d))) =
     logged d @ map (\<lambda>p. (Error, ''Exception getting option '' @ p)) (filter (path_fails rd esc) args)"
proof (induction args arbitrary: ret d)
  case Nil
  show ?case by simp
next
  case (Cons opt args)
  show ?case
  proof (cases "path_fails rd esc opt")
    case True
    then show ?thesis
      using Cons.IH by (simp add: cmd_configs_step_fails log_error_def)
  next
    case False
    with cmd_configs_step_resolves [of rd esc opt ret]
    obtain r where "\<And>d. cmd_configs_step rd esc opt (ret, d) = (r, d)"
      by blast
    then show ?thesis
      using False Cons.IH by simp
  qed
qed

lemma cmd_configs_step_keys:
  "fst ` set (fst (cmd_configs_step rd esc opt (ret, d))) =
     (if path_fails rd esc opt then fst ` set ret else insert (resolved_key esc opt) (fst ` set ret))"
  by (cases "esc opt")
     (auto simp: cmd_configs_step_def path_fails_def resolved_key_def whole_section_def
        AList.dom_update split: option.splits sum.splits)

lemma cmd_configs_step_lookup:
  "reply_lookup (fst (cmd_configs_step rd esc opt (ret, d))) k st =
     (if whole_section esc opt
      then (if opt = k then map_of (conf_get_section rd opt) st else reply_lookup ret k st)
      else
        (case snd (esc opt) of
           None \<Rightarrow> reply_lookup ret k st
         | Some s \<Rightarrow>
             (case conf_get rd (fst (esc opt)) s of
                Inr v \<Rightarrow> if fst (esc opt) = k \<and> s = st then Some v else reply_lookup ret k st
              | Inl e \<Rightarrow> reply_lookup ret k st)))"
  by (cases "esc opt")
     (auto simp: cmd_configs_step_def whole_section_def reply_lookup_def AList.update_conv'
        split: option.splits sum.splits)

lemma cmd_configs_fold_keys:
  "fst ` set (fst (fold (cmd_configs_step rd esc) args ([], d))) =
     resolved_key esc ` {p \<in> set args. \<not> path_fails rd esc p}"
proof (induction args rule: rev_induct)
  case Nil
  show ?case by simp
next
  case (snoc p args)
  obtain ret d' where f: "fold (cmd_configs_step rd esc) args ([], d) = (ret, d')"
    by (cases "fold (cmd_configs_step rd esc) args ([], d)")
  with snoc show ?case
    by (auto simp: cmd_configs_step_keys)
qed

lemma cmd_configs_fold_lookup:
  "reply_lookup (fst (fold (cmd_configs_step rd esc) args ([], d))) k st =
     last_resolution rd esc (rev args) k st"
proof (induction args rule: rev_induct)
  case Nil
  show ?case by (simp add: reply_lookup_def)
next
  case (snoc p args)
  obtain ret d' where f: "fold (cmd_configs_step rd esc) args ([], d) = (ret, d')"
    by (cases "fold (cmd_configs_step rd esc) args ([], d)")
  with snoc have "reply_lookup ret k st = last_resolution rd esc (rev args) k st"
    by simp
  with f show ?case
    by (simp add: cmd_configs_step_lookup split: option.splits sum.splits)
qed

lemma last_resolution_whole:
  assumes "p \<in> set l" and "whole_section esc p"
  shows "last_resolution rd esc l p st = map_of (conf_get_section rd p) st \<or>
         (\<exists>q \<in> set l. \<exists>v. esc q = (p, Some st) \<and> st \<noteq> [] \<and> conf_get rd p st = Inr v \<and>
            last_resolution rd esc l p st = Some v)"
  using assms
proof (induction l)
  case Nil
  then show ?case by simp
next
  case (Cons h l)
  show ?case
  proof (cases "whole_section esc h")
    case True
    then show ?thesis
      using Cons by (cases "h = p") auto
  next
    case False
    with Cons.prems have "p \<in> set l" by auto
    from Cons.IH [OF this Cons.prems(2)] False show ?thesis
      by (cases "esc h") (auto simp: whole_section_def split: option.splits sum.splits)
  qed
qed

lemma last_resolution_setting:
  assumes "q \<in> set l" and "esc q = (sec, Some s)" and "s \<noteq> []" and "conf_get rd sec s = Inr v"
  shows "last_resolution rd esc l sec s = Some v \<or>
         (sec \<in> set l \<and> whole_section esc sec \<and>
            last_resolution rd esc l sec s = map_of (conf_get_section rd sec) s)"
  using assms(1)
proof (induction l)
  case Nil
  then show ?case by simp
next
  case (Cons h l)
  show ?case
  proof (cases "h = q")
    case True
    with assms show ?thesis by (simp add: whole_section_def)
  next
    case False
    with Cons.prems have "q \<in> set l" by auto
    from Cons.IH [OF this] assms(4) show ?thesis
      by (cases "esc h") (auto simp: whole_section_def split: option.splits sum.splits)
  qed
qed


text \<open>
  C8.  For a non-empty list of option paths, \<^verbatim>\<open>cmd_configs\<close> writes exactly one
  \<^verbatim>\<open>CONFIGS\<close> reply and logs every path whose \<^verbatim>\<open>conf.get\<close> raised, once per occurrence
  and in request order.  The reply is the one the request without those paths gets.
  Its keys are those of the paths that resolved.  Every setting of every section of
  the reply is the answer of the last path of the request that speaks about it.
  So for a whole-section path each setting of the reply's section is what
  \<^verbatim>\<open>conf.get_section\<close> holds, or the value of a path of the request that names this
  setting; and for a path with a setting whose \<^verbatim>\<open>conf.get\<close> returned, the reply holds
  that value under the section, or the section was also requested whole and the
  reply holds what \<^verbatim>\<open>conf.get_section\<close> holds for the setting.
\<close>

theorem cmd_configs_isolates_failures:
  assumes "args \<noteq> []"
  shows "case fold (cmd_configs_step rd esc) args ([], d) of
           (ret, d') \<Rightarrow>
             written (cmd_configs rd esc sock args d) =
               written d @ [(sock, ''CONFIGS'', Config_map ret)] \<and>
             logged (cmd_configs rd esc sock args d) =
               logged d @ map (\<lambda>p. (Error, ''Exception getting option '' @ p))
                            (filter (path_fails rd esc) args) \<and>
             ret = fst (fold (cmd_configs_step rd esc)
                          (filter (\<lambda>p. \<not> path_fails rd esc p) args) ([], d)) \<and>
             fst ` set ret = resolved_key esc ` {p \<in> set args. \<not> path_fails rd esc p} \<and>
             (\<forall>k st. reply_lookup ret k st = last_resolution rd esc (rev args) k st) \<and>
             (\<forall>p \<in> set args. whole_section esc p \<longrightarrow>
                (\<forall>st. reply_lookup ret p st = map_of (conf_get_section rd p) st \<or>
                   (\<exists>q \<in> set args. \<exists>v. esc q = (p, Some st) \<and> st \<noteq> [] \<and>
                      conf_get rd p st = Inr v \<and> reply_lookup ret p st = Some v))) \<and>
             (\<forall>q \<in> set args. \<forall>sec s v.
                esc q = (sec, Some s) \<and> s \<noteq> [] \<and> conf_get rd sec s = Inr v \<longrightarrow>
                reply_lookup ret sec s = Some v \<or>
                (sec \<in> set args \<and> whole_section esc sec \<and>
                   reply_lookup ret sec s = map_of (conf_get_section rd sec) s))"
proof (cases "fold (cmd_configs_step rd esc) args ([], d)")
  case (Pair ret d')
  then have r: "ret = fst (fold (cmd_configs_step rd esc) args ([], d))"
    by simp
  have lk: "reply_lookup ret k st = last_resolution rd esc (rev args) k st" for k st
    unfolding r by (rule cmd_configs_fold_lookup)
  have ks: "fst ` set ret = resolved_key esc ` {p \<in> set args. \<not> path_fails rd esc p}"
    unfolding r by (rule cmd_configs_fold_keys)
  have w: "reply_lookup ret p st = map_of (conf_get_section rd p) st \<or>
           (\<exists>q \<in> set args. \<exists>v. esc q = (p, Some st) \<and> st \<noteq> [] \<and>
              conf_get rd p st = Inr v \<and> reply_lookup ret p st = Some v)"
    if "p \<in> set args" "whole_section esc p" for p st
    using last_resolution_whole [of p "rev args" esc rd st] that by (simp add: lk)
  have s: "reply_lookup ret sec s = Some v \<or>
           (sec \<in> set args \<and> whole_section esc sec \<and>
              reply_lookup ret sec s = map_of (conf_get_section rd sec) s)"
    if "q \<in> set args" "esc q = (sec, Some s)" "s \<noteq> []" "conf_get rd sec s = Inr v" for q sec s v
    using last_resolution_setting [of q "rev args" esc sec s rd v] that by (simp add: lk)
  have a: "written (cmd_configs rd esc sock args d) =
             written d @ [(sock, ''CONFIGS'', Config_map ret)]"
    "logged (cmd_configs rd esc sock args d) =
       logged d @ map (\<lambda>p. (Error, ''Exception getting option '' @ p))
                    (filter (path_fails rd esc) args)"
    "ret = fst (fold (cmd_configs_step rd esc)
                  (filter (\<lambda>p. \<not> path_fails rd esc p) args) ([], d))"
    using assms Pair cmd_configs_fold_snd [of rd esc args "[]" d]
      cmd_configs_fold_skips_failures [of rd esc args "[]" d]
    by (simp_all add: cmd_configs_def write_reply_def)
  from a ks lk w s show ?thesis
    unfolding Pair prod.case by blast
qed

theorem cmd_configs_isolates_failures_witness:
  "demo_paths \<noteq> [] \<and>
   path_fails demo_reader split_dot ''defaults.bogus'' \<and>
   written (cmd_configs demo_reader split_dot 1 demo_paths busy_daemon) =
     [(1, ''CONFIGS'', Config_map [(''defaults'', [(''rate'', ''5'')]), (''feeds'', [(''comics'', ''http://a'')])])] \<and>
   logged (cmd_configs demo_reader split_dot 1 demo_paths busy_daemon) =
     [(Error, ''Exception getting option defaults.bogus'')]"
proof -
  have a: "demo_paths \<noteq> []"
    by (simp add: demo_paths_def)
  have f: "path_fails demo_reader split_dot ''defaults.bogus''"
    "\<not> path_fails demo_reader split_dot ''defaults.rate''"
    "\<not> path_fails demo_reader split_dot ''feeds''"
    by (simp_all add: path_fails_def split_dot_def demo_reader_def)
  have l: "fst (fold (cmd_configs_step demo_reader split_dot) [''defaults.rate'', ''feeds''] ([], busy_daemon)) =
           [(''defaults'', [(''rate'', ''5'')]), (''feeds'', [(''comics'', ''http://a'')])]"
    by (simp add: cmd_configs_step_def split_dot_def demo_reader_def)
  obtain ret d' where p:
    "fold (cmd_configs_step demo_reader split_dot) demo_paths ([], busy_daemon) = (ret, d')"
    by (cases "fold (cmd_configs_step demo_reader split_dot) demo_paths ([], busy_daemon)")
  from cmd_configs_isolates_failures
         [OF a, where rd = demo_reader and esc = split_dot and d = busy_daemon and sock = 1]
  have "written (cmd_configs demo_reader split_dot 1 demo_paths busy_daemon) =
          written busy_daemon @ [(1, ''CONFIGS'', Config_map ret)]"
    "logged (cmd_configs demo_reader split_dot 1 demo_paths busy_daemon) =
       logged busy_daemon @ map (\<lambda>p. (Error, ''Exception getting option '' @ p))
                    (filter (path_fails demo_reader split_dot) demo_paths)"
    "ret = fst (fold (cmd_configs_step demo_reader split_dot)
                  (filter (\<lambda>p. \<not> path_fails demo_reader split_dot p) demo_paths) ([], busy_daemon))"
    unfolding p prod.case by blast+
  with a f l show ?thesis
    by (simp add: demo_paths_def busy_daemon_def)
qed

section \<open>Properties of the shelf\<close>







end
